theory Spec2Isabelle
  imports Main "HOL-Library.Word" "HOL-Library.Multiset"
begin

section \<open>Machine types\<close>

text \<open>
  \<^verbatim>\<open>size_t\<close> is read as a 64-bit unsigned integer (LP64) and \<^verbatim>\<open>unsigned int\<close> as a
  32-bit one: addition and subtraction wrap around.  Thread identities
  (\<^verbatim>\<open>std::thread::id\<close>) and object addresses are natural numbers; a pointer is an
  address or null (\<open>None\<close>).
\<close>

type_synonym size_t = "64 word"
type_synonym uint = "32 word"
type_synonym tid = nat
type_synonym addr = nat
type_synonym ptr = "addr option"

section \<open>taskqueue.h\<close>

text \<open>
  \<^verbatim>\<open>taskQueue<T>\<close> wraps a \<^verbatim>\<open>std::deque<T> qu\<close> behind the mutex \<^verbatim>\<open>tqLock\<close>.  Every
  member function holds the lock for its whole body, so each one is an atomic function
  on the deque, which is a list with its front at the head.
\<close>

type_synonym 'a taskQueue = "'a list"

definition push_back :: "'a taskQueue \<Rightarrow> 'a \<Rightarrow> 'a taskQueue" where
  "push_back qu v = qu @ [v]"

definition push_front :: "'a taskQueue \<Rightarrow> 'a \<Rightarrow> 'a taskQueue" where
  "push_front qu v = v # qu"

text \<open>
  \<^verbatim>\<open>bool try_pop(T &v)\<close>: the result is the returned flag, the caller's variable
  \<^verbatim>\<open>v\<close> after the call and the deque after the call.
\<close>

definition try_pop :: "'a taskQueue \<Rightarrow> 'a \<Rightarrow> bool \<times> 'a \<times> 'a taskQueue" where
  "try_pop qu v = (case qu of [] \<Rightarrow> (False, v, qu) | x # xs \<Rightarrow> (True, x, xs))"

definition getLength :: "'a taskQueue \<Rightarrow> size_t" where
  "getLength qu = of_nat (length qu)"

subsection \<open>Traces of queue operations\<close>

text \<open>
  A client of the queue issues a sequence of calls.  \<open>run_qops\<close> performs them in
  order on a state made of the deque, the caller's out-variable and the list of
  elements popped so far (oldest first).
\<close>

datatype 'a qop = PushBack 'a | PushFront 'a | TryPop

fun run_qop :: "'a qop \<Rightarrow> 'a taskQueue \<times> 'a \<times> 'a list \<Rightarrow> 'a taskQueue \<times> 'a \<times> 'a list" where
  "run_qop (PushBack x) (qu, v, out) = (push_back qu x, v, out)"
| "run_qop (PushFront x) (qu, v, out) = (push_front qu x, v, out)"
| "run_qop TryPop (qu, v, out) =
     (case try_pop qu v of
        (True, v', qu') \<Rightarrow> (qu', v', out @ [v'])
      | (False, v', qu') \<Rightarrow> (qu', v', out))"

fun run_qops :: "'a qop list \<Rightarrow> 'a taskQueue \<times> 'a \<times> 'a list \<Rightarrow> 'a taskQueue \<times> 'a \<times> 'a list" where
  "run_qops [] st = st"
| "run_qops (c # cs) st = run_qops cs (run_qop c st)"

text \<open>
  To speak about the class of an element, every pushed element is stamped with the end
  it was pushed at and with the position of its push in the call sequence.
\<close>

datatype qend = AtBack | AtFront

fun stamp_qops :: "nat \<Rightarrow> 'a qop list \<Rightarrow> (qend \<times> nat \<times> 'a) qop list" where
  "stamp_qops n [] = []"
| "stamp_qops n (PushBack x # cs) = PushBack (AtBack, n, x) # stamp_qops (Suc n) cs"
| "stamp_qops n (PushFront x # cs) = PushFront (AtFront, n, x) # stamp_qops (Suc n) cs"
| "stamp_qops n (TryPop # cs) = TryPop # stamp_qops (Suc n) cs"

fun back_pushes :: "nat \<Rightarrow> 'a qop list \<Rightarrow> (qend \<times> nat \<times> 'a) list" where
  "back_pushes n [] = []"
| "back_pushes n (PushBack x # cs) = (AtBack, n, x) # back_pushes (Suc n) cs"
| "back_pushes n (c # cs) = back_pushes (Suc n) cs"

fun front_pushes :: "nat \<Rightarrow> 'a qop list \<Rightarrow> (qend \<times> nat \<times> 'a) list" where
  "front_pushes n [] = []"
| "front_pushes n (PushFront x # cs) = (AtFront, n, x) # front_pushes (Suc n) cs"
| "front_pushes n (c # cs) = front_pushes (Suc n) cs"

text \<open>The pushes of a call sequence, its \<^verbatim>\<open>try_pop\<close> calls left out.\<close>

fun is_push :: "'a qop \<Rightarrow> bool" where
  "is_push TryPop = False"
| "is_push c = True"

definition pushes_only :: "'a qop list \<Rightarrow> 'a qop list" where
  "pushes_only cs = filter is_push cs"

definition is_back :: "qend \<times> nat \<times> 'a \<Rightarrow> bool" where
  "is_back e = (fst e = AtBack)"

definition is_front :: "qend \<times> nat \<times> 'a \<Rightarrow> bool" where
  "is_front e = (fst e = AtFront)"

definition stamp_of :: "qend \<times> nat \<times> 'a \<Rightarrow> nat" where
  "stamp_of e = fst (snd e)"

definition queue_of :: "'a taskQueue \<times> 'a \<times> 'a list \<Rightarrow> 'a taskQueue" where
  "queue_of st = fst st"

definition popped_of :: "'a taskQueue \<times> 'a \<times> 'a list \<Rightarrow> 'a list" where
  "popped_of st = snd (snd st)"

text \<open>
  The front-pushed elements of the deque carry strictly decreasing stamps, and no stamp
  in the deque has been issued yet.
\<close>

definition fronts_newest_first :: "nat \<Rightarrow> (qend \<times> nat \<times> 'a) list \<Rightarrow> bool" where
  "fronts_newest_first n qu =
     (sorted_wrt (>) (map stamp_of (filter is_front qu)) \<and> (\<forall>e \<in> set qu. stamp_of e < n))"

text \<open>In the deque every front-pushed element stands before every back-pushed one.\<close>

definition fronts_then_backs :: "(qend \<times> nat \<times> 'a) list \<Rightarrow> bool" where
  "fronts_then_backs qu = (qu = filter is_front qu @ filter is_back qu)"

section \<open>utility.h, autothread.h\<close>

text \<open>
  The task classes are the empty tag structs \<^verbatim>\<open>normal\<close>, \<^verbatim>\<open>urgent\<close> and \<^verbatim>\<open>sequence\<close>.
  A task is a type-erased \<^verbatim>\<open>std::function<void()>\<close>: the empty function object, the
  wrapper around one user callable (named by a number), or the closure that runs a
  group of callables in order (\<^verbatim>\<open>rexec\<close>).
\<close>

datatype task_class = normal | urgent | sequence

datatype task_t = NoTask | Single nat | Group "nat list"

text \<open>
  \<^verbatim>\<open>autoThread<detach>\<close> owns a \<^verbatim>\<open>std::thread\<close> and detaches it when it is destroyed; it
  never joins.  The model keeps the identity of the thread it wraps.
\<close>

datatype worker = Detach tid

section \<open>workbranch.h\<close>

datatype waitStrategy = lowlatancy | balance | blocking

datatype error = RuntimeError string | AssertionFailed string | UndefinedBehaviour

text \<open>
  The four condition variables of a branch (and the one of a supervisor), and the
  notifications a member function sends: the model records them in the order sent.
\<close>

datatype condvar = thread_cv | task_done_cv | task_cv | waiting_finished | m_thrdCv

datatype signal = NotifyOne condvar | NotifyAll condvar

record workbranch =
  workers :: "tid \<rightharpoonup> worker"
  tq :: "task_t taskQueue"
  wait_strategy :: waitStrategy
  decline :: size_t
  task_done_workers :: size_t
  waiting_finished_worker :: size_t
  m_is_waiting :: bool
  destructing :: bool

definition max_spin_count :: int where
  "max_spin_count = 10000"

text \<open>The member initialisers of the class: the state before the constructor body runs.\<close>

definition workbranch_members :: workbranch where
  "workbranch_members =
     \<lparr>workers = Map.empty, tq = [], wait_strategy = lowlatancy, decline = 0,
      task_done_workers = 0, waiting_finished_worker = 0, m_is_waiting = False,
      destructing = False\<rparr>"

text \<open>\<^verbatim>\<open>workers.size()\<close> and \<^verbatim>\<open>workers.empty()\<close>.\<close>

definition workers_size :: "workbranch \<Rightarrow> size_t" where
  "workers_size b = of_nat (card (dom (workers b)))"

definition workers_empty :: "workbranch \<Rightarrow> bool" where
  "workers_empty b = (dom (workers b) = {})"

text \<open>
  \<^verbatim>\<open>add_worker\<close> starts a thread running \<^verbatim>\<open>mission\<close>; \<open>t\<close> is the identity the system
  gave to that thread.  \<^verbatim>\<open>emplace\<close> inserts only when the key is absent.
\<close>

definition add_worker :: "tid \<Rightarrow> workbranch \<Rightarrow> workbranch" where
  "add_worker t b =
     b\<lparr>workers := (if t \<in> dom (workers b) then workers b else (workers b)(t \<mapsto> Detach t))\<rparr>"

text \<open>
  \<^verbatim>\<open>del_worker\<close> holds \<^verbatim>\<open>lok\<close> for its whole body and waits on nothing.  The result is
  the exception thrown or the notifications sent, together with the branch as the call
  leaves it.
\<close>

definition del_worker :: "workbranch \<Rightarrow> (error + signal list) \<times> workbranch" where
  "del_worker b =
     (if workers_empty b
      then (Inl (RuntimeError ''workbranch: No worker in workbranch to delete''), b)
      else (Inr (if wait_strategy b = blocking then [NotifyOne task_cv] else []),
            b\<lparr>decline := decline b + 1\<rparr>))"

definition num_workers :: "workbranch \<Rightarrow> size_t" where
  "num_workers b = workers_size b"

definition num_tasks :: "workbranch \<Rightarrow> size_t" where
  "num_tasks b = getLength (tq b)"

text \<open>
  The overloads of \<^verbatim>\<open>submit\<close> differ in the wrapper they build and in the end of the
  queue they push at: \<^verbatim>\<open>normal\<close> and \<^verbatim>\<open>sequence\<close> push at the back, \<^verbatim>\<open>urgent\<close> at the
  front; all of them notify one waiter of \<^verbatim>\<open>task_cv\<close> under the blocking strategy.
\<close>

definition workbranch_submit :: "task_class \<Rightarrow> task_t \<Rightarrow> workbranch \<Rightarrow> signal list \<times> workbranch" where
  "workbranch_submit c f b =
     ((if wait_strategy b = blocking then [NotifyOne task_cv] else []),
      (case c of
         normal \<Rightarrow> b\<lparr>tq := push_back (tq b) f\<rparr>
       | urgent \<Rightarrow> b\<lparr>tq := push_front (tq b) f\<rparr>
       | sequence \<Rightarrow> b\<lparr>tq := push_back (tq b) f\<rparr>))"

text \<open>
  The constructor: \<^verbatim>\<open>for (int i = 0; i < std::max(wks, 1); ++i) add_worker();\<close>.  The
  counter stays within \<open>0 .. max wks 1\<close>, so \<^verbatim>\<open>int\<close> never overflows and is read
  as an integer.  \<open>ids i\<close> is the identity of the thread started in round \<open>i\<close>.
\<close>

function ctor_loop :: "(nat \<Rightarrow> tid) \<Rightarrow> int \<Rightarrow> int \<Rightarrow> workbranch \<Rightarrow> workbranch" where
  "ctor_loop ids i n b =
     (if i < n then ctor_loop ids (i + 1) n (add_worker (ids (nat i)) b) else b)"
  by pat_completeness auto
termination
  by (relation "measure (\<lambda>(ids, i, n, b). nat (n - i))") auto

declare ctor_loop.simps [simp del]

definition workbranch_ctor :: "(nat \<Rightarrow> tid) \<Rightarrow> int \<Rightarrow> waitStrategy \<Rightarrow> workbranch" where
  "workbranch_ctor ids wks strategy =
     ctor_loop ids 0 (max wks 1) (workbranch_members\<lparr>wait_strategy := strategy\<rparr>)"

section \<open>supervisor.h\<close>

text \<open>
  The tick callback is a \<^verbatim>\<open>std::function<void()>\<close> like a task; the monitored branches are
  \<^verbatim>\<open>shared_ptr\<close>s, modelled by the addresses of the branches.
\<close>

record supervisor =
  m_stopping :: bool
  m_wmin :: size_t
  m_wmax :: size_t
  m_tout :: uint
  m_tval :: uint
  m_tickCb :: task_t
  m_branches :: "addr list"

text \<open>
  The constructor initialises the members (\<^verbatim>\<open>m_tout\<close> and the constant \<^verbatim>\<open>m_tval\<close> both
  from \<^verbatim>\<open>tout\<close>) and then asserts \<^verbatim>\<open>wmin >= 0 && wmax > 0 && wmax > wmin\<close>; the first
  conjunct is true of every \<^verbatim>\<open>size_t\<close>.  A failed \<^verbatim>\<open>assert\<close> aborts the program.
\<close>

definition supervisor_ctor :: "size_t \<Rightarrow> size_t \<Rightarrow> uint \<Rightarrow> task_t \<Rightarrow> error + supervisor" where
  "supervisor_ctor wmin wmax tout tickCb =
     (if 0 < wmax \<and> wmin < wmax
      then Inr \<lparr>m_stopping = False, m_wmin = wmin, m_wmax = wmax, m_tout = tout, m_tval = tout,
                m_tickCb = tickCb, m_branches = []\<rparr>
      else Inl (AssertionFailed ''wmin >= 0 && wmax > 0 && wmax > wmin''))"

definition add_super :: "addr \<Rightarrow> supervisor \<Rightarrow> supervisor" where
  "add_super b s = s\<lparr>m_branches := m_branches s @ [b]\<rparr>"

definition suspend :: "uint \<Rightarrow> supervisor \<Rightarrow> supervisor" where
  "suspend t s = s\<lparr>m_tout := t\<rparr>"

text \<open>The default argument of \<^verbatim>\<open>suspend\<close> is \<^verbatim>\<open>-1\<close>, the largest \<^verbatim>\<open>unsigned int\<close>.\<close>

definition suspend_default :: "supervisor \<Rightarrow> supervisor" where
  "suspend_default s = suspend (- 1) s"

definition proceed :: "supervisor \<Rightarrow> signal list \<times> supervisor" where
  "proceed s = ([NotifyOne m_thrdCv], s\<lparr>m_tout := m_tval s\<rparr>)"

definition setCb :: "task_t \<Rightarrow> supervisor \<Rightarrow> supervisor" where
  "setCb cb s = s\<lparr>m_tickCb := cb\<rparr>"

text \<open>A client's calls on a supervisor, and a sequence of them run in order.\<close>

datatype sup_call = AddSuper addr | Suspend uint | SuspendDefault | Proceed | SetCb task_t

fun run_sup_call :: "sup_call \<Rightarrow> supervisor \<Rightarrow> supervisor" where
  "run_sup_call (AddSuper b) s = add_super b s"
| "run_sup_call (Suspend t) s = suspend t s"
| "run_sup_call SuspendDefault s = suspend_default s"
| "run_sup_call Proceed s = snd (proceed s)"
| "run_sup_call (SetCb cb) s = setCb cb s"

fun run_sup_calls :: "sup_call list \<Rightarrow> supervisor \<Rightarrow> supervisor" where
  "run_sup_calls [] s = s"
| "run_sup_calls (c # cs) s = run_sup_calls cs (run_sup_call c s)"

subsection \<open>The control loop\<close>






section \<open>workspace.h\<close>

text \<open>
  The handles \<^verbatim>\<open>bid\<close> and \<^verbatim>\<open>sid\<close> hold a raw pointer.  The list holds the addresses owned
  by its \<^verbatim>\<open>unique_ptr\<close>s (never null: \<^verbatim>\<open>attach\<close> asserts it), the map is keyed by the
  address of the supervisor it owns.  The iterator \<^verbatim>\<open>cur\<close> is a position in the list,
  \<^verbatim>\<open>end()\<close> being the length of the list; the member functions set it again at every
  change of the list, so a position stands for the node it denotes.
\<close>

datatype bid = Bid ptr

datatype sid = Sid ptr

record workspace =
  cur :: nat
  m_branchList :: "addr list"
  m_superMap :: "addr \<rightharpoonup> addr"

definition workspace_ctor :: workspace where
  "workspace_ctor = \<lparr>cur = 0, m_branchList = [], m_superMap = Map.empty\<rparr>"

definition attach_branch :: "ptr \<Rightarrow> workspace \<Rightarrow> (error + bid) \<times> workspace" where
  "attach_branch b w =
     (case b of
        None \<Rightarrow> (Inl (AssertionFailed ''b != nullptr''), w)
      | Some a \<Rightarrow> (Inr (Bid b), w\<lparr>m_branchList := m_branchList w @ [a], cur := 0\<rparr>))"

definition attach_super :: "ptr \<Rightarrow> workspace \<Rightarrow> (error + sid) \<times> workspace" where
  "attach_super s w =
     (case s of
        None \<Rightarrow> (Inl (AssertionFailed ''s != nullptr''), w)
      | Some a \<Rightarrow>
          (Inr (Sid s),
           w\<lparr>m_superMap := (if a \<in> dom (m_superMap w) then m_superMap w
                             else (m_superMap w)(a \<mapsto> a))\<rparr>))"

text \<open>
  The search loop of \<^verbatim>\<open>detach(bid)\<close>: the position of the first element whose pointer is
  the handle's, scanning from position \<open>i\<close>.
\<close>

fun find_from :: "addr list \<Rightarrow> ptr \<Rightarrow> nat \<Rightarrow> nat option" where
  "find_from [] p i = None"
| "find_from (x # xs) p i = (if Some x = p then Some i else find_from xs p (Suc i))"

definition erase :: "nat \<Rightarrow> 'a list \<Rightarrow> 'a list" where
  "erase i xs = take i xs @ drop (Suc i) xs"

definition detach_bid :: "bid \<Rightarrow> workspace \<Rightarrow> ptr \<times> workspace" where
  "detach_bid b w =
     (case b of Bid p \<Rightarrow>
        (case find_from (m_branchList w) p 0 of
           None \<Rightarrow> (None, w)
         | Some i \<Rightarrow>
             (let up = Some (m_branchList w ! i);
                  l' = erase i (m_branchList w);
                  cur' = (if l' = [] then length l'
                          else if i = length l' then 0
                          else i)
              in (up, w\<lparr>m_branchList := l', cur := cur'\<rparr>))))"

definition detach_sid :: "sid \<Rightarrow> workspace \<Rightarrow> ptr \<times> workspace" where
  "detach_sid s w =
     (case s of Sid p \<Rightarrow>
        (case p of
           None \<Rightarrow> (None, w)
         | Some a \<Rightarrow>
             (case m_superMap w a of
                None \<Rightarrow> (None, w)
              | Some up \<Rightarrow> (Some up, w\<lparr>m_superMap := (m_superMap w)(a := None)\<rparr>))))"

text \<open>\<^verbatim>\<open>forward\<close>: \<^verbatim>\<open>if (++this_pos == m_branchList.end()) this_pos = m_branchList.begin();\<close>\<close>

definition forward :: "workspace \<Rightarrow> nat \<Rightarrow> nat" where
  "forward w this_pos = (if Suc this_pos = length (m_branchList w) then 0 else Suc this_pos)"

text \<open>
  The three overloads of \<^verbatim>\<open>submit\<close> choose the branch in the same way and pass the class
  on.  The branches live in a store; dereferencing \<^verbatim>\<open>end()\<close> or a pointer to no live
  branch is undefined behaviour.
\<close>

definition workspace_submit ::
    "task_class \<Rightarrow> task_t \<Rightarrow> workspace \<times> (addr \<rightharpoonup> workbranch)
      \<Rightarrow> (error + signal list) \<times> workspace \<times> (addr \<rightharpoonup> workbranch)" where
  "workspace_submit c f wh =
     (case wh of (w, h) \<Rightarrow>
        if m_branchList w = [] then (Inl (AssertionFailed ''!m_branchList.empty()''), w, h)
        else if \<not> cur w < length (m_branchList w) then (Inl UndefinedBehaviour, w, h)
        else
          (let this_br = m_branchList w ! cur w;
               w' = w\<lparr>cur := forward w (cur w)\<rparr>;
               next_br = m_branchList w' ! cur w'
           in case (h this_br, h next_br) of
                (Some a, Some b) \<Rightarrow>
                  if num_tasks b < num_tasks a
                  then (Inr (fst (workbranch_submit c f b)), w',
                        h(next_br \<mapsto> snd (workbranch_submit c f b)))
                  else (Inr (fst (workbranch_submit c f a)), w',
                        h(this_br \<mapsto> snd (workbranch_submit c f a)))
              | _ \<Rightarrow> (Inl UndefinedBehaviour, w', h)))"

text \<open>The branch the cursor stands on; \<open>None\<close> when the cursor is \<^verbatim>\<open>end()\<close>.\<close>

definition cursor_branch :: "workspace \<Rightarrow> ptr" where
  "cursor_branch w =
     (if cur w < length (m_branchList w) then Some (m_branchList w ! cur w) else None)"






text \<open>
  The invariant of the cursor: \<^verbatim>\<open>end()\<close> on the empty list, a position of the list
  otherwise.
\<close>

definition cursor_valid :: "workspace \<Rightarrow> bool" where
  "cursor_valid w =
     (if m_branchList w = [] then cur w = 0 else cur w < length (m_branchList w))"

text \<open>A workspace with three branches attached in the order 10, 20, 30.\<close>

definition ws_three :: workspace where
  "ws_three =
     snd (attach_branch (Some 30) (snd (attach_branch (Some 20)
       (snd (attach_branch (Some 10) workspace_ctor)))))"

text \<open>A store with the three branches of \<open>ws_three\<close>: two, one and one task queued.\<close>

definition store_three :: "addr \<rightharpoonup> workbranch" where
  "store_three = [10 \<mapsto> workbranch_members\<lparr>tq := [Single 1, Single 2]\<rparr>,
                  20 \<mapsto> workbranch_members\<lparr>tq := [Single 3]\<rparr>,
                  30 \<mapsto> workbranch_members\<lparr>tq := [Single 4]\<rparr>]"

section \<open>workbranch.h: the worker mission, \<^verbatim>\<open>wait_tasks\<close> and the destructor\<close>

text \<open>
  The worker threads, a caller of \<^verbatim>\<open>wait_tasks\<close> and the thread that destroys the branch
  run concurrently.  The model interleaves atomic steps.  A step of a worker is one
  access to the shared state in \<^verbatim>\<open>mission\<close>: the test \<^verbatim>\<open>decline <= 0 && tq.try_pop(task)\<close>,
  the run of a task, the unlocked tests of \<^verbatim>\<open>decline\<close> and of \<^verbatim>\<open>m_is_waiting\<close>, and each
  section under the mutex \<^verbatim>\<open>lok\<close> up to its end or to the point where a condition
  variable releases the mutex.  The section in which a worker retires ends with the
  release of \<^verbatim>\<open>lok\<close> at \<^verbatim>\<open>return\<close>; what the thread does after that (it destroys its
  local \<^verbatim>\<open>task\<close>, leaves \<^verbatim>\<open>mission\<close> and ends) is a step of its own, which reads and
  writes nothing of the branch.  The workers are \<^verbatim>\<open>autoThread<detach>\<close>: nothing joins
  them.  A thread waiting on a condition variable with a
  predicate may continue whenever the predicate holds: every wake-up of the program,
  notified or spurious, is such a step.

  The control points of a worker follow the source from top to bottom.
\<close>

datatype wpc =
    AtLoop        \<comment> \<open>at \<^verbatim>\<open>while (true)\<close>, before \<^verbatim>\<open>decline <= 0 && tq.try_pop(task)\<close>\<close>
  | Executing     \<comment> \<open>inside \<^verbatim>\<open>task()\<close>\<close>
  | ChkDecline    \<comment> \<open>before \<^verbatim>\<open>else if (decline > 0)\<close>\<close>
  | Retiring      \<comment> \<open>before taking \<^verbatim>\<open>lok\<close> for the re-check of \<^verbatim>\<open>decline\<close>\<close>
  | ChkWaiting    \<comment> \<open>before \<^verbatim>\<open>if (m_is_waiting)\<close>\<close>
  | Reporting     \<comment> \<open>before taking \<^verbatim>\<open>lok\<close> to report idle\<close>
  | Parked        \<comment> \<open>inside \<^verbatim>\<open>thread_cv.wait(locker, !m_is_waiting)\<close>\<close>
  | Idling        \<comment> \<open>before \<^verbatim>\<open>switch (wait_strategy)\<close>\<close>
  | Blocked       \<comment> \<open>inside \<^verbatim>\<open>task_cv.wait(locker, ...)\<close>\<close>
  | Returning     \<comment> \<open>at \<^verbatim>\<open>return\<close>, \<^verbatim>\<open>lok\<close> released: before \<^verbatim>\<open>task\<close> is destroyed and the thread ends\<close>
  | Exited        \<comment> \<open>the thread has ended\<close>

record wthread =
  pc :: wpc
  task :: task_t
  spin_count :: int

definition wthread_start :: wthread where
  "wthread_start = \<lparr>pc = AtLoop, task = NoTask, spin_count = 0\<rparr>"

text \<open>The predicate of \<^verbatim>\<open>task_cv.wait\<close> under the blocking strategy.\<close>

definition blocking_pred :: "workbranch \<Rightarrow> bool" where
  "blocking_pred b = (0 < getLength (tq b) \<or> m_is_waiting b \<or> destructing b \<or> 0 < decline b)"

text \<open>The rest of the quiescing branch once \<^verbatim>\<open>thread_cv.wait\<close> has returned.\<close>

definition report_resumed :: "wthread \<Rightarrow> workbranch \<Rightarrow> signal list \<times> wthread \<times> workbranch" where
  "report_resumed l b =
     (let b' = b\<lparr>waiting_finished_worker := waiting_finished_worker b + 1\<rparr>
      in ((if workers_size b' \<le> waiting_finished_worker b' then [NotifyOne waiting_finished] else []),
          l\<lparr>pc := AtLoop\<rparr>, b'))"

text \<open>
  One step of the worker with identity \<open>t\<close>: the notifications sent, the worker and the
  branch afterwards; \<open>None\<close> when the worker cannot move (it waits on a condition whose
  predicate is false, or the thread has ended).
\<close>

definition mission_step ::
    "tid \<Rightarrow> wthread \<Rightarrow> workbranch \<Rightarrow> (signal list \<times> wthread \<times> workbranch) option" where
  "mission_step t l b =
     (case pc l of
        AtLoop \<Rightarrow>
          if decline b \<le> 0 then
            (case try_pop (tq b) (task l) of
               (True, v, q) \<Rightarrow> Some ([], l\<lparr>pc := Executing, task := v\<rparr>, b\<lparr>tq := q\<rparr>)
             | (False, v, q) \<Rightarrow> Some ([], l\<lparr>pc := ChkDecline\<rparr>, b))
          else Some ([], l\<lparr>pc := ChkDecline\<rparr>, b)
      | Executing \<Rightarrow> Some ([], l\<lparr>pc := AtLoop, spin_count := 0\<rparr>, b)
      | ChkDecline \<Rightarrow> Some ([], l\<lparr>pc := (if 0 < decline b then Retiring else ChkWaiting)\<rparr>, b)
      | Retiring \<Rightarrow>
          if 0 < decline b then
            Some ((if m_is_waiting b then [NotifyOne task_done_cv] else []) @
                  (if destructing b then [NotifyOne thread_cv] else []),
                  l\<lparr>pc := Returning\<rparr>,
                  b\<lparr>decline := decline b - 1, workers := (workers b)(t := None)\<rparr>)
          else Some ([], l\<lparr>pc := AtLoop\<rparr>, b)
      | Returning \<Rightarrow> Some ([], l\<lparr>pc := Exited\<rparr>, b)
      | ChkWaiting \<Rightarrow> Some ([], l\<lparr>pc := (if m_is_waiting b then Reporting else Idling)\<rparr>, b)
      | Reporting \<Rightarrow>
          (let b' = b\<lparr>task_done_workers := task_done_workers b + 1\<rparr> in
           if m_is_waiting b' then Some ([NotifyOne task_done_cv], l\<lparr>pc := Parked\<rparr>, b')
           else (case report_resumed l b' of
                   (sigs, r) \<Rightarrow> Some (NotifyOne task_done_cv # sigs, r)))
      | Parked \<Rightarrow> if m_is_waiting b then None else Some (report_resumed l b)
      | Idling \<Rightarrow>
          (case wait_strategy b of
             lowlatancy \<Rightarrow> Some ([], l\<lparr>pc := AtLoop\<rparr>, b)
           | balance \<Rightarrow>
               Some ([], (if spin_count l < max_spin_count
                          then l\<lparr>pc := AtLoop, spin_count := spin_count l + 1\<rparr>
                          else l\<lparr>pc := AtLoop\<rparr>), b)
           | blocking \<Rightarrow> Some ([], l\<lparr>pc := (if blocking_pred b then AtLoop else Blocked)\<rparr>, b))
      | Blocked \<Rightarrow> if blocking_pred b then Some ([], l\<lparr>pc := AtLoop\<rparr>, b) else None
      | Exited \<Rightarrow> None)"

subsection \<open>\<^verbatim>\<open>wait_tasks\<close>\<close>

datatype wt_pc =
    WtNotCalled
  | WtPhase1          \<comment> \<open>inside \<^verbatim>\<open>task_done_cv.wait_for\<close>\<close>
  | WtPhase2 bool     \<comment> \<open>inside \<^verbatim>\<open>waiting_finished.wait\<close>, holding \<^verbatim>\<open>res\<close>\<close>
  | WtReturned bool

definition wait_tasks_enter :: "workbranch \<Rightarrow> signal list \<times> workbranch" where
  "wait_tasks_enter b =
     ((if wait_strategy b = blocking then [NotifyAll task_cv] else []), b\<lparr>m_is_waiting := True\<rparr>)"

definition all_reported :: "workbranch \<Rightarrow> bool" where
  "all_reported b = (workers_size b \<le> task_done_workers b)"

definition wait_tasks_recover :: "workbranch \<Rightarrow> signal list \<times> workbranch" where
  "wait_tasks_recover b =
     ([NotifyAll thread_cv], b\<lparr>task_done_workers := 0, m_is_waiting := False\<rparr>)"

definition all_resumed :: "workbranch \<Rightarrow> bool" where
  "all_resumed b = (workers_size b \<le> waiting_finished_worker b)"

definition wait_tasks_finish :: "workbranch \<Rightarrow> workbranch" where
  "wait_tasks_finish b = b\<lparr>waiting_finished_worker := 0\<rparr>"

subsection \<open>The destructor\<close>

datatype dtor_pc =
    Alive
  | DtorWaiting       \<comment> \<open>inside \<^verbatim>\<open>thread_cv.wait(lock, !decline)\<close>\<close>
  | Destroyed         \<comment> \<open>the destructor has returned\<close>

definition dtor_enter :: "workbranch \<Rightarrow> signal list \<times> workbranch" where
  "dtor_enter b =
     ((if wait_strategy b = blocking then [NotifyAll task_cv] else []),
      b\<lparr>decline := workers_size b, destructing := True\<rparr>)"

subsection \<open>The system\<close>

text \<open>
  The branch, the worker threads started so far (each by its identity), the caller of
  \<^verbatim>\<open>wait_tasks\<close> and the destroying thread.  Its actions: the member functions called
  from outside or from running tasks, the steps of the workers, and the wake-ups of the
  two waiting callers.  \<^verbatim>\<open>add_worker\<close> gets an identity no live thread has (a thread
  that has retired but not ended still has its own), and the worker map never holds as
  many entries as \<^verbatim>\<open>size_t\<close> can count.  The member functions can be called at any time,
  also while the destructor runs; the destructor is entered once.
\<close>

record system =
  branch :: workbranch
  threads :: "tid \<rightharpoonup> wthread"
  waiter :: wt_pc
  dtor :: dtor_pc

datatype action =
    AddWorker tid
  | DelWorker
  | Submit task_class task_t
  | Step tid
  | WaitTasks
  | WtSatisfied
  | WtTimeout
  | WtResume
  | Destruct
  | DestructWake

definition system_init :: "waitStrategy \<Rightarrow> system" where
  "system_init strategy =
     \<lparr>branch = workbranch_members\<lparr>wait_strategy := strategy\<rparr>, threads = Map.empty,
      waiter = WtNotCalled, dtor = Alive\<rparr>"

definition id_free :: "system \<Rightarrow> tid \<Rightarrow> bool" where
  "id_free s t = (case threads s t of None \<Rightarrow> True | Some l \<Rightarrow> pc l = Exited)"

definition waiter_idle :: "system \<Rightarrow> bool" where
  "waiter_idle s = (case waiter s of WtNotCalled \<Rightarrow> True | WtReturned r \<Rightarrow> True | _ \<Rightarrow> False)"

definition fire :: "action \<Rightarrow> system \<Rightarrow> system option" where
  "fire a s =
     (case a of
        AddWorker t \<Rightarrow>
          if id_free s t \<and> Suc (card (dom (workers (branch s)))) < 2 ^ 64
          then Some (s\<lparr>branch := add_worker t (branch s),
                       threads := (threads s)(t \<mapsto> wthread_start)\<rparr>)
          else None
      | DelWorker \<Rightarrow> Some (s\<lparr>branch := snd (del_worker (branch s))\<rparr>)
      | Submit c f \<Rightarrow> Some (s\<lparr>branch := snd (workbranch_submit c f (branch s))\<rparr>)
      | Step t \<Rightarrow>
          (case threads s t of
             None \<Rightarrow> None
           | Some l \<Rightarrow>
               (case mission_step t l (branch s) of
                  None \<Rightarrow> None
                | Some (sigs, l', b') \<Rightarrow> Some (s\<lparr>branch := b', threads := (threads s)(t \<mapsto> l')\<rparr>)))
      | WaitTasks \<Rightarrow>
          if waiter_idle s
          then (let b = snd (wait_tasks_enter (branch s)) in
                if all_reported b
                then Some (s\<lparr>branch := snd (wait_tasks_recover b), waiter := WtPhase2 True\<rparr>)
                else Some (s\<lparr>branch := b, waiter := WtPhase1\<rparr>))
          else None
      | WtSatisfied \<Rightarrow>
          if waiter s = WtPhase1 \<and> all_reported (branch s)
          then Some (s\<lparr>branch := snd (wait_tasks_recover (branch s)), waiter := WtPhase2 True\<rparr>)
          else None
      | WtTimeout \<Rightarrow>
          if waiter s = WtPhase1
          then Some (s\<lparr>branch := snd (wait_tasks_recover (branch s)),
                       waiter := WtPhase2 (all_reported (branch s))\<rparr>)
          else None
      | WtResume \<Rightarrow>
          (case waiter s of
             WtPhase2 r \<Rightarrow>
               if all_resumed (branch s)
               then Some (s\<lparr>branch := wait_tasks_finish (branch s), waiter := WtReturned r\<rparr>)
               else None
           | _ \<Rightarrow> None)
      | Destruct \<Rightarrow>
          if dtor s = Alive
          then (let b = snd (dtor_enter (branch s)) in
                Some (s\<lparr>branch := b, dtor := (if decline b = 0 then Destroyed else DtorWaiting)\<rparr>))
          else None
      | DestructWake \<Rightarrow>
          if dtor s = DtorWaiting \<and> decline (branch s) = 0
          then Some (s\<lparr>dtor := Destroyed\<rparr>)
          else None)"

text \<open>A schedule is a list of actions; it runs if every action can fire in its turn.\<close>

fun run :: "action list \<Rightarrow> system \<Rightarrow> system option" where
  "run [] s = Some s"
| "run (a # as) s = (case fire a s of None \<Rightarrow> None | Some s' \<Rightarrow> run as s')"

text \<open>
  A schedule is orderly if no call of \<^verbatim>\<open>add_worker\<close> or \<^verbatim>\<open>del_worker\<close> follows the call
  of the destructor; the flag tells whether the destructor has been called.
\<close>

fun is_scaling :: "action \<Rightarrow> bool" where
  "is_scaling (AddWorker t) = True"
| "is_scaling DelWorker = True"
| "is_scaling a = False"

fun scaling_stops :: "bool \<Rightarrow> action list \<Rightarrow> bool" where
  "scaling_stops d [] = True"
| "scaling_stops d (a # as) = (\<not> (d \<and> is_scaling a) \<and> scaling_stops (d \<or> a = Destruct) as)"

definition orderly :: "action list \<Rightarrow> bool" where
  "orderly sched = scaling_stops False sched"

subsection \<open>Invariants of the system\<close>




definition quiesce_schedule :: "action list" where
  "quiesce_schedule = [AddWorker 5, WaitTasks, Submit normal (Single 7)]"

text \<open>
  The states these schedules lead to.  After \<open>quiesce_schedule\<close>: one worker at the top of
  its loop, \<^verbatim>\<open>wait_tasks\<close> in phase 1 and a task submitted since; then the step of the
  worker.  After \<open>shutdown_schedule\<close>: the destructor has returned, and the worker has
  retired but its thread has not ended; then the step that ends the thread.
\<close>

definition phase1_state :: system where
  "phase1_state =
     \<lparr>branch = \<lparr>workers = [5 \<mapsto> Detach 5], tq = [Single 7], wait_strategy = lowlatancy,
                decline = 0, task_done_workers = 0, waiting_finished_worker = 0,
                m_is_waiting = True, destructing = False\<rparr>,
      threads = [5 \<mapsto> \<lparr>pc = AtLoop, task = NoTask, spin_count = 0\<rparr>],
      waiter = WtPhase1, dtor = Alive\<rparr>"

definition phase1_popped :: system where
  "phase1_popped =
     \<lparr>branch = \<lparr>workers = [5 \<mapsto> Detach 5], tq = [], wait_strategy = lowlatancy,
                decline = 0, task_done_workers = 0, waiting_finished_worker = 0,
                m_is_waiting = True, destructing = False\<rparr>,
      threads = [5 \<mapsto> \<lparr>pc = Executing, task = Single 7, spin_count = 0\<rparr>],
      waiter = WtPhase1, dtor = Alive\<rparr>"



text \<open>All workers are parked in phase 1 or their threads have ended.\<close>

definition all_parked :: "system \<Rightarrow> bool" where
  "all_parked s = (\<forall>u l. threads s u = Some l \<longrightarrow> pc l = Parked \<or> pc l = Exited)"

text \<open>
  A third schedule: the worker finds the queue empty during phase 1, reports idle and
  parks; a task is submitted afterwards.
\<close>

definition parked_schedule :: "action list" where
  "parked_schedule = [AddWorker 5, WaitTasks, Step 5, Step 5, Step 5, Step 5,
                      Submit normal (Single 7)]"

definition parked_state :: system where
  "parked_state =
     \<lparr>branch = \<lparr>workers = [5 \<mapsto> Detach 5], tq = [Single 7], wait_strategy = lowlatancy,
                decline = 0, task_done_workers = 1, waiting_finished_worker = 0,
                m_is_waiting = True, destructing = False\<rparr>,
      threads = [5 \<mapsto> \<lparr>pc = Parked, task = NoTask, spin_count = 0\<rparr>],
      waiter = WtPhase1, dtor = Alive\<rparr>"



text \<open>
  A schedule that is not orderly: a second worker is added after the destructor has been
  entered.  The first worker retires, the destructor returns, and the second worker is
  still in the map, at the top of its loop.
\<close>

definition late_add_schedule :: "action list" where
  "late_add_schedule =
     [AddWorker 5, Destruct, AddWorker 6, Step 5, Step 5, Step 5, DestructWake]"

definition late_add_state :: system where
  "late_add_state =
     \<lparr>branch = \<lparr>workers = [6 \<mapsto> Detach 6], tq = [], wait_strategy = blocking,
                decline = 0, task_done_workers = 0, waiting_finished_worker = 0,
                m_is_waiting = False, destructing = True\<rparr>,
      threads = [5 \<mapsto> \<lparr>pc = Returning, task = NoTask, spin_count = 0\<rparr>,
                 6 \<mapsto> \<lparr>pc = AtLoop, task = NoTask, spin_count = 0\<rparr>],
      waiter = WtNotCalled, dtor = Destroyed\<rparr>"

chapter \<open>Proofs\<close>

section \<open>The task queue\<close>

lemma stamp_simps [simp]:
  "is_back (AtBack, n, x)" "\<not> is_back (AtFront, n, x)"
  "is_front (AtFront, n, x)" "\<not> is_front (AtBack, n, x)" "stamp_of (e, n, x) = n"
  by (simp_all add: is_back_def is_front_def stamp_of_def)

lemma fronts_push_back:
  "fronts_newest_first n qu \<Longrightarrow> fronts_newest_first (Suc n) (push_back qu (AtBack, n, x))"
  unfolding fronts_newest_first_def push_back_def by (auto simp: less_Suc_eq)

lemma fronts_push_front:
  "fronts_newest_first n qu \<Longrightarrow> fronts_newest_first (Suc n) (push_front qu (AtFront, n, x))"
  unfolding fronts_newest_first_def push_front_def by (auto simp: less_Suc_eq)

lemma fronts_later: "fronts_newest_first n qu \<Longrightarrow> fronts_newest_first (Suc n) qu"
  unfolding fronts_newest_first_def by (auto simp: less_Suc_eq)

lemma fronts_pop: "fronts_newest_first n (e # qu) \<Longrightarrow> fronts_newest_first n qu"
  unfolding fronts_newest_first_def by (cases "is_front e") auto

lemma run_qops_order:
  "fronts_newest_first n qu \<Longrightarrow>
   fronts_newest_first (n + length cs) (queue_of (run_qops (stamp_qops n cs) (qu, v, out))) \<and>
   filter is_back (popped_of (run_qops (stamp_qops n cs) (qu, v, out)) @
                   queue_of (run_qops (stamp_qops n cs) (qu, v, out)))
     = filter is_back (out @ qu) @ back_pushes n cs"
proof (induction cs arbitrary: n qu v out)
  case Nil
  then show ?case by (simp add: queue_of_def popped_of_def)
next
  case (Cons c cs)
  show ?case
  proof (cases c)
    case (PushBack x)
    from Cons.IH [OF fronts_push_back [OF Cons.prems], of x v out]
    show ?thesis using PushBack by (simp add: push_back_def)
  next
    case (PushFront x)
    from Cons.IH [OF fronts_push_front [OF Cons.prems], of x v out]
    show ?thesis using PushFront by (simp add: push_front_def)
  next
    case TryPop
    show ?thesis
    proof (cases qu)
      case Nil
      from Cons.IH [OF fronts_later [OF Cons.prems], of v out]
      show ?thesis using TryPop Nil by (simp add: try_pop_def)
    next
      case (Cons e qu')
      with Cons.prems have "fronts_newest_first n qu'" using fronts_pop by blast
      from Cons.IH [OF fronts_later [OF this], of e "out @ [e]"]
      show ?thesis using TryPop Cons by (simp add: try_pop_def)
    qed
  qed
qed

lemma back_pushes_stamps:
  "sorted_wrt (<) (map stamp_of (back_pushes n cs)) \<and> (\<forall>e \<in> set (back_pushes n cs). n \<le> stamp_of e)"
proof (induction cs arbitrary: n)
  case Nil
  show ?case by simp
next
  case (Cons c cs)
  from Cons [of "Suc n"] show ?case
    by (cases c) (auto simp: Suc_le_eq intro: Suc_leD)
qed

lemma front_pushes_stamps:
  "sorted_wrt (<) (map stamp_of (front_pushes n cs)) \<and> (\<forall>e \<in> set (front_pushes n cs). n \<le> stamp_of e)"
proof (induction cs arbitrary: n)
  case Nil
  show ?case by simp
next
  case (Cons c cs)
  from Cons [of "Suc n"] show ?case
    by (cases c) (auto simp: Suc_le_eq intro: Suc_leD)
qed

lemma is_front_back: "is_front e = (\<not> is_back e)"
  by (cases e, cases "fst e") (auto simp: is_front_def is_back_def)

lemma ftb_push_back: "fronts_then_backs qu \<Longrightarrow> fronts_then_backs (push_back qu (AtBack, n, x))"
  unfolding fronts_then_backs_def push_back_def
proof -
  assume a: "qu = filter is_front qu @ filter is_back qu"
  have "filter is_front (qu @ [(AtBack, n, x)]) @ filter is_back (qu @ [(AtBack, n, x)])
        = (filter is_front qu @ filter is_back qu) @ [(AtBack, n, x)]" by simp
  with a show "qu @ [(AtBack, n, x)] =
     filter is_front (qu @ [(AtBack, n, x)]) @ filter is_back (qu @ [(AtBack, n, x)])" by simp
qed

lemma ftb_push_front: "fronts_then_backs qu \<Longrightarrow> fronts_then_backs (push_front qu (AtFront, n, x))"
  unfolding fronts_then_backs_def push_front_def by simp

lemma ftb_pop:
  assumes "fronts_then_backs (e # qu)"
  shows "fronts_then_backs qu"
proof (cases "is_front e")
  case True
  with assms show ?thesis by (simp add: fronts_then_backs_def is_front_back)
next
  case False
  hence b: "is_back e" by (simp add: is_front_back)
  from assms False b have eq: "e # qu = filter is_front qu @ e # filter is_back qu"
    by (simp add: fronts_then_backs_def)
  show ?thesis
  proof (cases "filter is_front qu")
    case Nil
    with eq show ?thesis by (simp add: fronts_then_backs_def)
  next
    case (Cons f fs)
    hence "f \<in> set (filter is_front qu)" by simp
    hence "is_front f" by simp
    moreover from eq Cons have "e = f" by simp
    ultimately show ?thesis using False by simp
  qed
qed

lemma run_qops_fronts:
  "fronts_then_backs qu \<Longrightarrow>
   fronts_then_backs (queue_of (run_qops (stamp_qops n cs) (qu, v, out))) \<and>
   mset (filter is_front (popped_of (run_qops (stamp_qops n cs) (qu, v, out)) @
                          queue_of (run_qops (stamp_qops n cs) (qu, v, out))))
     = mset (filter is_front (out @ qu)) + mset (front_pushes n cs)"
proof (induction cs arbitrary: n qu v out)
  case Nil
  then show ?case by (simp add: queue_of_def popped_of_def)
next
  case (Cons c cs)
  show ?case
  proof (cases c)
    case (PushBack x)
    from Cons.IH [OF ftb_push_back [OF Cons.prems, of n x], of "Suc n" v out]
    show ?thesis using PushBack by (simp add: push_back_def)
  next
    case (PushFront x)
    from Cons.IH [OF ftb_push_front [OF Cons.prems, of n x], of "Suc n" v out]
    show ?thesis using PushFront by (simp add: push_front_def)
  next
    case TryPop
    show ?thesis
    proof (cases qu)
      case Nil
      from Cons.IH [OF Cons.prems, of "Suc n" v out]
      show ?thesis using TryPop Nil by (simp add: try_pop_def)
    next
      case (Cons e qu')
      with Cons.prems have "fronts_then_backs qu'" using ftb_pop by blast
      from Cons.IH [OF this, of "Suc n" e "out @ [e]"]
      show ?thesis using TryPop Cons by (simp add: try_pop_def)
    qed
  qed
qed

lemma run_pushes_only:
  "run_qops (stamp_qops n (pushes_only cs)) (qu, v, out)
     = (rev (front_pushes n (pushes_only cs)) @ qu @ back_pushes n (pushes_only cs), v, out)"
proof (induction cs arbitrary: n qu)
  case Nil
  show ?case by (simp add: pushes_only_def)
next
  case (Cons c cs)
  show ?case
  proof (cases c)
    case (PushBack x)
    from Cons [of "Suc n" "qu @ [(AtBack, n, x)]"] show ?thesis
      using PushBack by (simp add: pushes_only_def push_back_def)
  next
    case (PushFront x)
    from Cons [of "Suc n" "(AtFront, n, x) # qu"] show ?thesis
      using PushFront by (simp add: pushes_only_def push_front_def)
  next
    case TryPop
    from Cons [of n qu] show ?thesis using TryPop by (simp add: pushes_only_def)
  qed
qed

lemma run_qops_append:
  "run_qops (stamp_qops n (cs @ ds)) st
     = run_qops (stamp_qops (n + length cs) ds) (run_qops (stamp_qops n cs) st)"
proof (induction cs arbitrary: n st)
  case Nil
  show ?case by simp
next
  case (Cons c cs)
  from Cons [of "Suc n"] show ?case by (cases c) simp_all
qed

lemma front_push_popped_next:
  "popped_of (run_qops (stamp_qops 0 (cs @ [PushFront x, TryPop])) ([], v0, []))
     = popped_of (run_qops (stamp_qops 0 cs) ([], v0, [])) @ [(AtFront, length cs, x)]
   \<and> queue_of (run_qops (stamp_qops 0 (cs @ [PushFront x, TryPop])) ([], v0, []))
     = queue_of (run_qops (stamp_qops 0 cs) ([], v0, []))"
proof -
  obtain q v out where r: "run_qops (stamp_qops 0 cs) ([], v0, []) = (q, v, out)"
    by (cases "run_qops (stamp_qops 0 cs) ([], v0, [])") auto
  show ?thesis
    by (simp add: run_qops_append r push_front_def try_pop_def popped_of_def queue_of_def)
qed

lemma stamp_pops: "stamp_qops n (replicate k TryPop) = replicate k TryPop"
  by (induction k arbitrary: n) simp_all

lemma run_pops:
  "popped_of (run_qops (replicate k TryPop) (qu, v, out)) = out @ take k qu
   \<and> queue_of (run_qops (replicate k TryPop) (qu, v, out)) = drop k qu"
proof (induction k arbitrary: qu v out)
  case 0
  show ?case by (simp add: popped_of_def queue_of_def)
next
  case (Suc k)
  show ?case
  proof (cases qu)
    case Nil
    from Suc [of "[]" v out] show ?thesis using Nil by (simp add: try_pop_def)
  next
    case (Cons e qu')
    from Suc [of qu' e "out @ [e]"] show ?thesis using Cons by (simp add: try_pop_def)
  qed
qed

lemma pushes_then_pops:
  "popped_of (run_qops (stamp_qops 0 (pushes_only cs @ replicate k TryPop)) ([], v0, []))
     = take k (rev (front_pushes 0 (pushes_only cs)) @ back_pushes 0 (pushes_only cs))
   \<and> queue_of (run_qops (stamp_qops 0 (pushes_only cs @ replicate k TryPop)) ([], v0, []))
     = drop k (rev (front_pushes 0 (pushes_only cs)) @ back_pushes 0 (pushes_only cs))"
  using run_pops [of k "rev (front_pushes 0 (pushes_only cs)) @ back_pushes 0 (pushes_only cs)" v0 "[]"]
  by (simp add: run_qops_append run_pushes_only stamp_pops)

text \<open>
  C7.  \<^verbatim>\<open>try_pop\<close> is a total function of the deque (it takes the lock, never waits on a
  condition); it returns false exactly on the empty deque, which it leaves as it is with
  the caller's variable, and otherwise hands out the head.  For every sequence of calls
  on an empty queue:

  \<^item> the back-pushed elements, read through the popped elements and then the elements
    still queued, are exactly the back-pushes in the order they were made (increasing
    stamps);

  \<^item> the front-pushed elements still queued stand newest first (decreasing stamps), so a
    later front-push is popped before every earlier one that is still queued;

  \<^item> every front-push enters the queue and stays until it is popped: the front-pushed
    elements among the popped and the queued ones are exactly the front-pushes made, each
    once (their stamps differ);

  \<^item> in the deque the front-pushed elements stand before the back-pushed ones;

  \<^item> when only pushes are made, the deque is the front-pushes, newest first, followed by
    the back-pushes, oldest first; \<open>k\<close> calls of \<^verbatim>\<open>try_pop\<close> after them pop the first \<open>k\<close>
    elements of that list in that order (all of it if it is shorter) and leave the rest;

  \<^item> a front-push followed by \<^verbatim>\<open>try_pop\<close> pops the element just pushed and leaves the
    deque as it was before.
\<close>

theorem taskQueue_try_pop_and_class_order:
  "(\<not> fst (try_pop qu v)) = (qu = [])
   \<and> try_pop [] v = (False, v, [])
   \<and> try_pop (x # xs) v = (True, x, xs)
   \<and> filter is_back (popped_of (run_qops (stamp_qops 0 (cs :: 'b qop list)) ([], v0, [])) @
                     queue_of (run_qops (stamp_qops 0 cs) ([], v0, [])))
       = back_pushes 0 cs
   \<and> sorted_wrt (<) (map stamp_of (back_pushes 0 cs))
   \<and> sorted_wrt (>) (map stamp_of (filter is_front
         (queue_of (run_qops (stamp_qops 0 cs) ([], v0, [])))))
   \<and> mset (filter is_front (popped_of (run_qops (stamp_qops 0 cs) ([], v0, [])) @
                           queue_of (run_qops (stamp_qops 0 cs) ([], v0, []))))
       = mset (front_pushes 0 cs)
   \<and> sorted_wrt (<) (map stamp_of (front_pushes 0 cs))
   \<and> fronts_then_backs (queue_of (run_qops (stamp_qops 0 cs) ([], v0, [])))
   \<and> queue_of (run_qops (stamp_qops 0 (pushes_only cs)) ([], v0, []))
       = rev (front_pushes 0 (pushes_only cs)) @ back_pushes 0 (pushes_only cs)
   \<and> popped_of (run_qops (stamp_qops 0 (pushes_only cs @ replicate k TryPop)) ([], v0, []))
       = take k (rev (front_pushes 0 (pushes_only cs)) @ back_pushes 0 (pushes_only cs))
   \<and> queue_of (run_qops (stamp_qops 0 (pushes_only cs @ replicate k TryPop)) ([], v0, []))
       = drop k (rev (front_pushes 0 (pushes_only cs)) @ back_pushes 0 (pushes_only cs))
   \<and> popped_of (run_qops (stamp_qops 0 (cs @ [PushFront y, TryPop])) ([], v0, []))
       = popped_of (run_qops (stamp_qops 0 cs) ([], v0, [])) @ [(AtFront, length cs, y)]
   \<and> queue_of (run_qops (stamp_qops 0 (cs @ [PushFront y, TryPop])) ([], v0, []))
       = queue_of (run_qops (stamp_qops 0 cs) ([], v0, []))"
proof -
  have e: "fronts_newest_first 0 ([] :: (qend \<times> nat \<times> 'b) list)"
    by (simp add: fronts_newest_first_def)
  have f: "fronts_then_backs ([] :: (qend \<times> nat \<times> 'b) list)"
    by (simp add: fronts_then_backs_def)
  have p: "(\<not> fst (try_pop qu v)) = (qu = []) \<and> try_pop [] v = (False, v, [])
           \<and> try_pop (x # xs) v = (True, x, xs)"
    by (simp add: try_pop_def split: list.split)
  from run_qops_order [OF e, of cs v0 "[]"] back_pushes_stamps [of 0 cs]
  have b: "filter is_back (popped_of (run_qops (stamp_qops 0 cs) ([], v0, [])) @
                     queue_of (run_qops (stamp_qops 0 cs) ([], v0, [])))
       = back_pushes 0 cs
   \<and> sorted_wrt (<) (map stamp_of (back_pushes 0 cs))
   \<and> sorted_wrt (>) (map stamp_of (filter is_front
         (queue_of (run_qops (stamp_qops 0 cs) ([], v0, [])))))"
    by (simp add: fronts_newest_first_def)
  from run_qops_fronts [OF f, of 0 cs v0 "[]"] front_pushes_stamps [of 0 cs]
  have c: "mset (filter is_front (popped_of (run_qops (stamp_qops 0 cs) ([], v0, [])) @
                           queue_of (run_qops (stamp_qops 0 cs) ([], v0, []))))
       = mset (front_pushes 0 cs)
   \<and> sorted_wrt (<) (map stamp_of (front_pushes 0 cs))
   \<and> fronts_then_backs (queue_of (run_qops (stamp_qops 0 cs) ([], v0, [])))"
    by simp
  have d: "queue_of (run_qops (stamp_qops 0 (pushes_only cs)) ([], v0, []))
       = rev (front_pushes 0 (pushes_only cs)) @ back_pushes 0 (pushes_only cs)"
    by (simp add: run_pushes_only queue_of_def)
  from p b c d pushes_then_pops [of cs k v0] front_push_popped_next [of cs y v0]
  show ?thesis by blast
qed

section \<open>The work branch: construction and \<^verbatim>\<open>del_worker\<close>\<close>

lemma dom_add_worker: "dom (workers (add_worker t b)) = insert t (dom (workers b))"
  by (auto simp: add_worker_def)

lemma add_worker_frame:
  "tq (add_worker t b) = tq b" "wait_strategy (add_worker t b) = wait_strategy b"
  "decline (add_worker t b) = decline b" "task_done_workers (add_worker t b) = task_done_workers b"
  "waiting_finished_worker (add_worker t b) = waiting_finished_worker b"
  "m_is_waiting (add_worker t b) = m_is_waiting b" "destructing (add_worker t b) = destructing b"
  by (simp_all add: add_worker_def)

lemma ctor_loop_dom:
  "0 \<le> i \<Longrightarrow> dom (workers (ctor_loop ids i n b)) = dom (workers b) \<union> ids ` {nat i ..< nat n}"
proof (induction ids i n b rule: ctor_loop.induct)
  case (1 ids i n b)
  show ?case
  proof (cases "i < n")
    case True
    have s: "{nat i ..< nat n} = insert (nat i) {nat (i + 1) ..< nat n}"
      using True "1.prems" by (auto simp: nat_add_distrib)
    from "1.IH" [OF True] "1.prems" True show ?thesis
      by (subst ctor_loop.simps) (simp add: dom_add_worker s)
  next
    case False
    hence "{nat i ..< nat n} = {}" by simp
    with False show ?thesis by (subst ctor_loop.simps) simp
  qed
qed

lemma ctor_loop_frame:
  "wait_strategy (ctor_loop ids i n b) = wait_strategy b \<and> tq (ctor_loop ids i n b) = tq b
   \<and> decline (ctor_loop ids i n b) = decline b"
proof (induction ids i n b rule: ctor_loop.induct)
  case (1 ids i n b)
  show ?case
  proof (cases "i < n")
    case True
    from "1.IH" [OF True] True show ?thesis
      by (subst (1 2 3) ctor_loop.simps) (simp add: add_worker_frame)
  next
    case False
    then show ?thesis by (subst (1 2 3) ctor_loop.simps) simp
  qed
qed

text \<open>
  C8.  The constructor starts \<open>max wks 1\<close> threads.  While it runs no worker can retire
  (\<^verbatim>\<open>decline\<close> is 0 and no other thread has the object yet), so the threads are alive
  together and the system gives them distinct identities: that is the hypothesis on
  \<open>ids\<close>.  Then the worker map holds exactly \<open>max wks 1\<close> workers, \<^verbatim>\<open>num_workers()\<close>
  returns that number, the strategy is the one given, and \<open>wks = 0\<close> yields one worker.
\<close>

theorem workbranch_ctor_workers:
  assumes "inj_on ids {..< nat (max wks 1)}"
  shows "card (dom (workers (workbranch_ctor ids wks strategy))) = nat (max wks 1)
     \<and> num_workers (workbranch_ctor ids wks strategy) = word_of_int (max wks 1)
     \<and> wait_strategy (workbranch_ctor ids wks strategy) = strategy
     \<and> card (dom (workers (workbranch_ctor ids 0 strategy))) = 1"
proof -
  have d: "dom (workers (workbranch_ctor ids w strategy)) = ids ` {..< nat (max w 1)}" for w
    unfolding workbranch_ctor_def
    by (simp add: ctor_loop_dom workbranch_members_def lessThan_atLeast0)
  have c: "card (dom (workers (workbranch_ctor ids wks strategy))) = nat (max wks 1)"
    using assms by (simp add: d card_image)
  have "{..< nat (max 0 (1::int))} = {0}" by auto
  hence c0: "card (dom (workers (workbranch_ctor ids 0 strategy))) = 1"
    by (simp add: d)
  have n: "num_workers (workbranch_ctor ids wks strategy) = word_of_int (max wks 1)"
    by (simp add: num_workers_def workers_size_def c)
  have w: "wait_strategy (workbranch_ctor ids wks strategy) = strategy"
    by (simp add: workbranch_ctor_def ctor_loop_frame)
  from c c0 n w show ?thesis by simp
qed


theorem workbranch_ctor_workers_witness:
  "inj_on (\<lambda>i. i + 100) {..< nat (max 0 1)}
   \<and> card (dom (workers (workbranch_ctor (\<lambda>i. i + 100) 0 blocking))) = 1
   \<and> num_workers (workbranch_ctor (\<lambda>i. i + 100) 0 blocking) = 1"
proof -
  have i: "inj_on (\<lambda>i::nat. i + 100) {..< nat (max 0 1)}" by (simp add: inj_on_def)
  have "card (dom (workers (workbranch_ctor (\<lambda>i. i + 100) 0 blocking))) = 1"
    using workbranch_ctor_workers [OF i, of blocking] by blast
  moreover have "num_workers (workbranch_ctor (\<lambda>i. i + 100) 0 blocking) = 1"
    using workbranch_ctor_workers [OF i, of blocking] by simp
  ultimately show ?thesis using i by blast
qed

text \<open>
  C5.  \<^verbatim>\<open>del_worker\<close> throws exactly when the worker map is empty, and then the branch is
  left as it was.  Otherwise it adds one to \<^verbatim>\<open>decline\<close> (\<^verbatim>\<open>size_t\<close> arithmetic), sends
  one \<^verbatim>\<open>notify_one\<close> on \<^verbatim>\<open>task_cv\<close> under the blocking strategy and nothing otherwise,
  and returns with the worker map, the queue and every other field as they were: it
  has not waited for a worker to retire.
\<close>

theorem del_worker_contract:
  "isl (fst (del_worker b)) = (dom (workers b) = {})
   \<and> (case fst (del_worker b) of
        Inl e \<Rightarrow> e = RuntimeError ''workbranch: No worker in workbranch to delete''
                 \<and> snd (del_worker b) = b
      | Inr sigs \<Rightarrow> snd (del_worker b) = b\<lparr>decline := decline b + 1\<rparr>
                 \<and> decline (snd (del_worker b)) = decline b + 1
                 \<and> workers (snd (del_worker b)) = workers b
                 \<and> tq (snd (del_worker b)) = tq b
                 \<and> sigs = (if wait_strategy b = blocking then [NotifyOne task_cv] else [])
                 \<and> length sigs \<le> 1)"
  by (simp add: del_worker_def workers_empty_def)

section \<open>The supervisor\<close>

lemma run_sup_call_tval: "m_tval (run_sup_call c s) = m_tval s"
  by (cases c) (simp_all add: add_super_def suspend_def suspend_default_def proceed_def setCb_def)

lemma run_sup_calls_tval: "m_tval (run_sup_calls cs s) = m_tval s"
  by (induction cs arbitrary: s) (simp_all add: run_sup_call_tval)

text \<open>
  C9.  For a supervisor constructed with period \<open>tick_ms\<close>: \<^verbatim>\<open>suspend(t)\<close> followed by
  \<^verbatim>\<open>proceed()\<close> leaves the current period \<^verbatim>\<open>m_tout\<close> equal to \<open>tick_ms\<close>, for every \<open>t\<close>
  and for the default argument (the largest \<^verbatim>\<open>unsigned int\<close>, standing for infinity); the
  same holds after any sequence of calls in between, since no member function writes the
  constant \<^verbatim>\<open>m_tval\<close>.
\<close>

theorem suspend_proceed_restores:
  assumes "supervisor_ctor wmin wmax tick_ms cb = Inr s"
  shows "m_tout s = tick_ms
     \<and> m_tout (snd (proceed (suspend t s))) = tick_ms
     \<and> m_tout (snd (proceed (suspend_default s))) = tick_ms
     \<and> m_tout (snd (proceed (suspend t (run_sup_calls cs s)))) = tick_ms
     \<and> m_tval (run_sup_calls cs s) = tick_ms"
proof -
  from assms have v: "m_tval s = tick_ms" and o: "m_tout s = tick_ms"
    by (auto simp: supervisor_ctor_def split: if_splits)
  show ?thesis
    using v o by (simp add: proceed_def suspend_def suspend_default_def run_sup_calls_tval)
qed

theorem suspend_proceed_restores_witness:
  "supervisor_ctor 2 16 500 NoTask =
     Inr \<lparr>m_stopping = False, m_wmin = 2, m_wmax = 16, m_tout = 500, m_tval = 500,
          m_tickCb = NoTask, m_branches = []\<rparr>
   \<and> m_tout (snd (proceed (suspend_default
        \<lparr>m_stopping = False, m_wmin = 2, m_wmax = 16, m_tout = 500, m_tval = 500,
          m_tickCb = NoTask, m_branches = []\<rparr>))) = 500"
proof -
  have c: "supervisor_ctor 2 16 500 NoTask =
     Inr \<lparr>m_stopping = False, m_wmin = 2, m_wmax = 16, m_tout = 500, m_tval = 500,
          m_tickCb = NoTask, m_branches = []\<rparr>"
    by (simp add: supervisor_ctor_def)
  from suspend_proceed_restores [OF c] c show ?thesis by blast
qed
















section \<open>The workspace\<close>

lemma find_from_None: "(find_from xs p i = None) = (p \<notin> Some ` set xs)"
  by (induction xs arbitrary: i) auto

lemma find_from_Some:
  "find_from xs p i = Some j \<Longrightarrow>
     i \<le> j \<and> j - i < length xs \<and> Some (xs ! (j - i)) = p \<and> (\<forall>k < j - i. Some (xs ! k) \<noteq> p)"
proof (induction xs arbitrary: i)
  case Nil
  then show ?case by simp
next
  case (Cons x xs)
  show ?case
  proof (cases "Some x = p")
    case True
    with Cons.prems show ?thesis by simp
  next
    case False
    with Cons.prems have f: "find_from xs p (Suc i) = Some j" by simp
    from Cons.IH [OF f] have a: "Suc i \<le> j" "j - Suc i < length xs"
      "Some (xs ! (j - Suc i)) = p" "\<forall>k < j - Suc i. Some (xs ! k) \<noteq> p" by auto
    from a(1) have e: "j - i = Suc (j - Suc i)" by simp
    have "\<forall>k < j - i. Some ((x # xs) ! k) \<noteq> p"
    proof (intro allI impI)
      fix k assume "k < j - i"
      then show "Some ((x # xs) ! k) \<noteq> p"
        using False a(4) e by (cases k) auto
    qed
    with a e show ?thesis by auto
  qed
qed

lemma find_from_0:
  "find_from xs p 0 = Some i \<Longrightarrow>
     i < length xs \<and> Some (xs ! i) = p \<and> (\<forall>k < i. Some (xs ! k) \<noteq> p)"
  using find_from_Some [of xs p 0 i] by simp

lemma erase_length: "i < length xs \<Longrightarrow> length (erase i xs) = length xs - 1"
  by (simp add: erase_def)

lemma erase_nth:
  "i < length xs \<Longrightarrow> k < length xs - 1 \<Longrightarrow> erase i xs ! k = (if k < i then xs ! k else xs ! Suc k)"
  by (auto simp: erase_def nth_append min_def)

lemma erase_distinct_notin:
  "distinct xs \<Longrightarrow> i < length xs \<Longrightarrow> xs ! i \<notin> set (erase i xs)"
  unfolding erase_def
  by (metis Cons_nth_drop_Suc distinct.simps(2) distinct_append id_take_nth_drop not_distinct_conv_prefix set_append Un_iff append.assoc append_Cons)

lemma detach_bid_absent:
  "p \<notin> Some ` set (m_branchList w) \<Longrightarrow> detach_bid (Bid p) w = (None, w)"
  using find_from_None [of "m_branchList w" p 0] by (simp add: detach_bid_def)

lemma detach_bid_found:
  assumes "find_from (m_branchList w) p 0 = Some i"
  shows "detach_bid (Bid p) w =
     (p, w\<lparr>m_branchList := erase i (m_branchList w),
           cur := (if length (m_branchList w) = 1 then 0
                   else if Suc i = length (m_branchList w) then 0 else i)\<rparr>)"
proof -
  from find_from_0 [OF assms] have i: "i < length (m_branchList w)"
    and p: "Some (m_branchList w ! i) = p" by auto
  have l: "length (erase i (m_branchList w)) = length (m_branchList w) - 1"
    using i by (rule erase_length)
  have e: "(erase i (m_branchList w) = []) = (length (m_branchList w) = 1)"
    using l i by (cases "erase i (m_branchList w)") auto
  have s: "(i = length (erase i (m_branchList w))) = (Suc i = length (m_branchList w))"
    using l i by auto
  show ?thesis
    using assms p by (simp add: detach_bid_def Let_def e s l)
qed

text \<open>
  C10.  \<^verbatim>\<open>detach\<close> with a \<^verbatim>\<open>bid\<close> whose pointer is not in the branch list returns null and
  leaves the workspace (list, cursor and supervisor map) as it was; so does \<^verbatim>\<open>detach\<close>
  with a \<^verbatim>\<open>sid\<close> whose pointer is not a key of the supervisor map.  A second \<^verbatim>\<open>detach\<close> of
  the same \<^verbatim>\<open>sid\<close> always returns null and changes nothing; so does a second \<^verbatim>\<open>detach\<close> of
  the same \<^verbatim>\<open>bid\<close> when the list owns every branch once.
\<close>

theorem detach_absent_is_noop:
  "(p \<notin> Some ` set (m_branchList w) \<longrightarrow> detach_bid (Bid p) w = (None, w))
   \<and> (s \<notin> Some ` dom (m_superMap w) \<longrightarrow> detach_sid (Sid s) w = (None, w))
   \<and> detach_sid sd (snd (detach_sid sd w)) = (None, snd (detach_sid sd w))
   \<and> (distinct (m_branchList w) \<longrightarrow>
        detach_bid bd (snd (detach_bid bd w)) = (None, snd (detach_bid bd w)))"
proof -
  have a: "s \<notin> Some ` dom (m_superMap w) \<Longrightarrow> detach_sid (Sid s) w = (None, w)"
    by (cases s) (auto simp: detach_sid_def split: option.split)
  have b: "detach_sid sd (snd (detach_sid sd w)) = (None, snd (detach_sid sd w))"
    by (cases sd) (auto simp: detach_sid_def split: option.split)
  have c: "detach_bid bd (snd (detach_bid bd w)) = (None, snd (detach_bid bd w))"
    if d: "distinct (m_branchList w)"
  proof (cases bd)
    case (Bid q)
    show ?thesis
    proof (cases "find_from (m_branchList w) q 0")
      case None
      then show ?thesis using Bid by (simp add: detach_bid_def)
    next
      case (Some i)
      from find_from_0 [OF Some] have i: "i < length (m_branchList w)"
        and q: "Some (m_branchList w ! i) = q" by auto
      have "m_branchList w ! i \<notin> set (erase i (m_branchList w))"
        using d i by (rule erase_distinct_notin)
      with q have "q \<notin> Some ` set (erase i (m_branchList w))" by auto
      then show ?thesis
        using Bid detach_bid_found [OF Some] by (simp add: detach_bid_absent)
    qed
  qed
  from a b c detach_bid_absent [of p w] show ?thesis by blast
qed

lemma ws_three_eq: "ws_three = \<lparr>cur = 0, m_branchList = [10, 20, 30], m_superMap = Map.empty\<rparr>"
  by (simp add: ws_three_def attach_branch_def workspace_ctor_def)

theorem detach_absent_is_noop_witness:
  "Some 40 \<notin> Some ` set (m_branchList ws_three)
   \<and> detach_bid (Bid (Some 40)) ws_three = (None, ws_three)
   \<and> Some 7 \<notin> Some ` dom (m_superMap ws_three)
   \<and> detach_sid (Sid (Some 7)) ws_three = (None, ws_three)
   \<and> distinct (m_branchList ws_three)
   \<and> fst (detach_bid (Bid (Some 20)) ws_three) = Some 20
   \<and> detach_bid (Bid (Some 20)) (snd (detach_bid (Bid (Some 20)) ws_three))
        = (None, snd (detach_bid (Bid (Some 20)) ws_three))"
proof -
  have a: "Some 40 \<notin> Some ` set (m_branchList ws_three)" by (simp add: ws_three_eq)
  have b: "Some 7 \<notin> Some ` dom (m_superMap ws_three)" by (simp add: ws_three_eq)
  have c: "distinct (m_branchList ws_three)" by (simp add: ws_three_eq)
  have d: "fst (detach_bid (Bid (Some 20)) ws_three) = Some 20"
    by (simp add: ws_three_eq detach_bid_def erase_def)
  from detach_absent_is_noop [of "Some 40" ws_three "Some 7" "Sid (Some 7)" "Bid (Some 20)"] a b c d
  show ?thesis by blast
qed

text \<open>
  C6, as claimed, fails: with the branches 10, 20, 30 attached the cursor stands on 10;
  detaching 20, on which the cursor does not stand, returns 20, leaves 10 and 30, and moves
  the cursor to 30.
\<close>

theorem detach_moves_cursor_counterexample:
  "cursor_branch ws_three = Some 10
   \<and> fst (detach_bid (Bid (Some 20)) ws_three) = Some 20
   \<and> m_branchList (snd (detach_bid (Bid (Some 20)) ws_three)) = [10, 30]
   \<and> cursor_branch (snd (detach_bid (Bid (Some 20)) ws_three)) = Some 30
   \<and> cursor_branch (snd (detach_bid (Bid (Some 20)) ws_three)) \<noteq> cursor_branch ws_three"
  by (simp add: ws_three_eq detach_bid_def erase_def cursor_branch_def)

lemma detach_bid_found_valid:
  assumes "find_from (m_branchList w) p 0 = Some i"
  shows "cursor_valid (snd (detach_bid (Bid p) w))"
proof -
  from find_from_0 [OF assms] have i: "i < length (m_branchList w)" by simp
  have len: "length (erase i (m_branchList w)) = length (m_branchList w) - 1"
    using i by (rule erase_length)
  show ?thesis
    using detach_bid_found [OF assms] len i by (auto simp: cursor_valid_def)
qed

text \<open>
  C6, amended.  \<^verbatim>\<open>detach(bid)\<close> of a pointer held by the list removes the first element
  holding it, and only that element, and returns the pointer (the ownership); the
  supervisor map is unchanged.  After every such removal, wherever the cursor stood, the
  cursor stands on the element that followed the removed one, wrapping to the first
  element, or is \<^verbatim>\<open>end()\<close> when the list has become empty.
\<close>

theorem detach_bid_resets_cursor:
  assumes "find_from (m_branchList w) p 0 = Some i"
  shows "i < length (m_branchList w) \<and> Some (m_branchList w ! i) = p
     \<and> (\<forall>k < i. Some (m_branchList w ! k) \<noteq> p)
     \<and> fst (detach_bid (Bid p) w) = p
     \<and> m_branchList (snd (detach_bid (Bid p) w)) = erase i (m_branchList w)
     \<and> m_superMap (snd (detach_bid (Bid p) w)) = m_superMap w
     \<and> cursor_branch (snd (detach_bid (Bid p) w))
         = (if length (m_branchList w) = 1 then None
            else Some (m_branchList w ! (Suc i mod length (m_branchList w))))
     \<and> cursor_valid (snd (detach_bid (Bid p) w))"
proof -
  let ?l = "m_branchList w"
  from find_from_0 [OF assms] have i: "i < length ?l" and p: "Some (?l ! i) = p"
    and f: "\<forall>k < i. Some (?l ! k) \<noteq> p" by auto
  note d = detach_bid_found [OF assms]
  have len: "length (erase i ?l) = length ?l - 1" using i by (rule erase_length)
  have cb: "cursor_branch (snd (detach_bid (Bid p) w))
         = (if length ?l = 1 then None else Some (?l ! (Suc i mod length ?l)))"
  proof (cases "length ?l = 1")
    case True
    then show ?thesis using d len by (simp add: cursor_branch_def)
  next
    case False
    with i have g: "1 < length ?l" by simp
    show ?thesis
    proof (cases "Suc i = length ?l")
      case True
      have "erase i ?l ! 0 = ?l ! 0" using erase_nth [OF i, of 0] g True by auto
      then show ?thesis using d len g True False by (simp add: cursor_branch_def)
    next
      case S: False
      with i have si: "Suc i < length ?l" by simp
      have "erase i ?l ! i = ?l ! Suc i" using erase_nth [OF i, of i] si by auto
      then show ?thesis using d len g S False si by (simp add: cursor_branch_def)
    qed
  qed
  have cv: "cursor_valid (snd (detach_bid (Bid p) w))"
    using assms by (rule detach_bid_found_valid)
  from i p f d cb cv show ?thesis by simp
qed

theorem detach_bid_resets_cursor_witness:
  "find_from (m_branchList ws_three) (Some 20) 0 = Some 1
   \<and> fst (detach_bid (Bid (Some 20)) ws_three) = Some 20
   \<and> m_branchList (snd (detach_bid (Bid (Some 20)) ws_three)) = [10, 30]
   \<and> cursor_branch (snd (detach_bid (Bid (Some 20)) ws_three)) = Some 30"
proof -
  have f: "find_from (m_branchList ws_three) (Some 20) 0 = Some 1" by (simp add: ws_three_eq)
  have l: "length (m_branchList ws_three) = 3" "m_branchList ws_three ! (Suc 1 mod 3) = 30"
    "erase 1 (m_branchList ws_three) = [10, 30]"
    by (simp_all add: ws_three_eq erase_def)
  from detach_bid_resets_cursor [OF f] f l show ?thesis by simp
qed

lemma cursor_valid_ctor: "cursor_valid workspace_ctor"
  by (simp add: cursor_valid_def workspace_ctor_def)

lemma cursor_valid_attach_branch: "cursor_valid w \<Longrightarrow> cursor_valid (snd (attach_branch b w))"
  by (cases b) (simp_all add: attach_branch_def cursor_valid_def)

lemma cursor_valid_attach_super: "cursor_valid w \<Longrightarrow> cursor_valid (snd (attach_super s w))"
  by (cases s) (simp_all add: attach_super_def cursor_valid_def)

lemma cursor_valid_detach_sid: "cursor_valid w \<Longrightarrow> cursor_valid (snd (detach_sid s w))"
  by (cases s) (auto simp: detach_sid_def cursor_valid_def split: option.split)

lemma cursor_valid_detach_bid: "cursor_valid w \<Longrightarrow> cursor_valid (snd (detach_bid b w))"
proof (cases b)
  case (Bid p)
  assume v: "cursor_valid w"
  show ?thesis
  proof (cases "find_from (m_branchList w) p 0")
    case None
    with v Bid show ?thesis by (simp add: detach_bid_def)
  next
    case (Some i)
    from detach_bid_found_valid [OF Some] Bid show ?thesis by simp
  qed
qed

lemma forward_less: "m_branchList w \<noteq> [] \<Longrightarrow> c < length (m_branchList w) \<Longrightarrow>
    forward w c < length (m_branchList w) \<and> forward w c = Suc c mod length (m_branchList w)"
  by (auto simp: forward_def)

lemma cursor_valid_submit:
  "cursor_valid w \<Longrightarrow> cursor_valid (fst (snd (workspace_submit c f (w, h))))"
  by (auto simp: workspace_submit_def cursor_valid_def Let_def forward_def
           split: option.split if_splits)

text \<open>
  C4.  On a non-empty list (the cursor then stands on a branch), with \<open>A\<close> the branch at
  the cursor and \<open>B\<close> the branch one position on, wrapping from the last to the first:
  \<^verbatim>\<open>submit\<close> hands the task to \<open>B\<close> if \<open>B.num_tasks() < A.num_tasks()\<close> and to \<open>A\<close>
  otherwise, ties included; the chosen branch enqueues it by its class, no other branch
  of the store changes, and afterwards the cursor stands on \<open>B\<close>.
\<close>

theorem workspace_submit_two_choice:
  assumes "m_branchList w \<noteq> []" and "cursor_valid w"
    and "h (m_branchList w ! cur w) = Some a"
    and "h (m_branchList w ! forward w (cur w)) = Some b"
  shows "workspace_submit c f (w, h) =
          (if num_tasks b < num_tasks a
           then (Inr (fst (workbranch_submit c f b)), w\<lparr>cur := forward w (cur w)\<rparr>,
                 h(m_branchList w ! forward w (cur w) \<mapsto> snd (workbranch_submit c f b)))
           else (Inr (fst (workbranch_submit c f a)), w\<lparr>cur := forward w (cur w)\<rparr>,
                 h(m_branchList w ! cur w \<mapsto> snd (workbranch_submit c f a))))
     \<and> forward w (cur w) = Suc (cur w) mod length (m_branchList w)
     \<and> cursor_branch w = Some (m_branchList w ! cur w)
     \<and> cursor_branch (fst (snd (workspace_submit c f (w, h))))
          = Some (m_branchList w ! forward w (cur w))
     \<and> tq (snd (workbranch_submit c f a))
          = (if c = urgent then push_front (tq a) f else push_back (tq a) f)
     \<and> tq (snd (workbranch_submit c f b))
          = (if c = urgent then push_front (tq b) f else push_back (tq b) f)"
proof -
  from assms(1,2) have lt: "cur w < length (m_branchList w)" by (simp add: cursor_valid_def)
  note fw = forward_less [OF assms(1) lt]
  have r: "workspace_submit c f (w, h) =
          (if num_tasks b < num_tasks a
           then (Inr (fst (workbranch_submit c f b)), w\<lparr>cur := forward w (cur w)\<rparr>,
                 h(m_branchList w ! forward w (cur w) \<mapsto> snd (workbranch_submit c f b)))
           else (Inr (fst (workbranch_submit c f a)), w\<lparr>cur := forward w (cur w)\<rparr>,
                 h(m_branchList w ! cur w \<mapsto> snd (workbranch_submit c f a))))"
    using assms lt by (simp add: workspace_submit_def Let_def)
  have cb: "cursor_branch (fst (snd (workspace_submit c f (w, h))))
          = Some (m_branchList w ! forward w (cur w))"
    using fw by (simp add: r cursor_branch_def)
  have q: "tq (snd (workbranch_submit c f x))
          = (if c = urgent then push_front (tq x) f else push_back (tq x) f)" for x
    by (cases c) (simp_all add: workbranch_submit_def)
  from r fw cb lt q [of a] q [of b] show ?thesis by (simp add: cursor_branch_def)
qed


theorem workspace_submit_two_choice_witness:
  "m_branchList ws_three \<noteq> [] \<and> cursor_valid ws_three
   \<and> store_three (m_branchList ws_three ! cur ws_three)
        = Some (workbranch_members\<lparr>tq := [Single 1, Single 2]\<rparr>)
   \<and> store_three (m_branchList ws_three ! forward ws_three (cur ws_three))
        = Some (workbranch_members\<lparr>tq := [Single 3]\<rparr>)
   \<and> cursor_branch ws_three = Some 10
   \<and> cursor_branch (fst (snd (workspace_submit normal (Single 9) (ws_three, store_three))))
        = Some 20
   \<and> snd (snd (workspace_submit normal (Single 9) (ws_three, store_three)))
        = store_three(20 \<mapsto> workbranch_members\<lparr>tq := [Single 3, Single 9]\<rparr>)"
proof -
  have n: "m_branchList ws_three \<noteq> []" by (simp add: ws_three_eq)
  have v: "cursor_valid ws_three" by (simp add: ws_three_eq cursor_valid_def)
  have a: "store_three (m_branchList ws_three ! cur ws_three)
        = Some (workbranch_members\<lparr>tq := [Single 1, Single 2]\<rparr>)"
    by (simp add: ws_three_eq forward_def store_three_def)
  have b: "store_three (m_branchList ws_three ! forward ws_three (cur ws_three))
        = Some (workbranch_members\<lparr>tq := [Single 3]\<rparr>)"
    by (simp add: ws_three_eq forward_def store_three_def)
  have t: "num_tasks (workbranch_members\<lparr>tq := [Single 3]\<rparr>)
            < num_tasks (workbranch_members\<lparr>tq := [Single 1, Single 2]\<rparr>)"
    by (simp add: num_tasks_def getLength_def)
  have s: "snd (workbranch_submit normal (Single 9) (workbranch_members\<lparr>tq := [Single 3]\<rparr>))
            = workbranch_members\<lparr>tq := [Single 3, Single 9]\<rparr>"
    by (simp add: workbranch_submit_def push_back_def)
  from workspace_submit_two_choice [OF n v a b, of normal "Single 9"] n v a b t
  show ?thesis by (simp add: s ws_three_eq forward_def cursor_branch_def)
qed

section \<open>The work branch: workers, quiescing and destruction\<close>





















lemmas sys_defs = fire_def mission_step_def system_init_def workbranch_members_def
  add_worker_def id_free_def wthread_start_def try_pop_def blocking_pred_def getLength_def
  dtor_enter_def workers_size_def report_resumed_def del_worker_def workbranch_submit_def
  wait_tasks_enter_def wait_tasks_recover_def wait_tasks_finish_def all_reported_def
  all_resumed_def waiter_idle_def push_back_def push_front_def workers_empty_def




lemma run_quiesce: "run quiesce_schedule (system_init lowlatancy) = Some phase1_state"
  by (simp add: quiesce_schedule_def phase1_state_def sys_defs)

lemma step_phase1: "fire (Step 5) phase1_state = Some phase1_popped"
  by (simp add: phase1_state_def phase1_popped_def sys_defs)








text \<open>
  The restriction to orderly schedules is needed: a worker added while the destructor
  waits is not counted in \<^verbatim>\<open>decline\<close>, and the destructor returns without it.
\<close>

lemma late_add_worker_survives:
  "run late_add_schedule (system_init blocking) = Some late_add_state
   \<and> \<not> orderly late_add_schedule
   \<and> dtor late_add_state = Destroyed
   \<and> dom (workers (branch late_add_state)) = {6}
   \<and> threads late_add_state 6 = Some \<lparr>pc = AtLoop, task = NoTask, spin_count = 0\<rparr>"
proof -
  have "run late_add_schedule (system_init blocking) = Some late_add_state"
    by (simp add: late_add_schedule_def late_add_state_def sys_defs fun_upd_twist)
  moreover have "\<not> orderly late_add_schedule"
    by (simp add: orderly_def late_add_schedule_def)
  ultimately show ?thesis by (simp add: late_add_state_def)
qed




text \<open>
  C1, as claimed, fails: with one worker at the top of its loop, \<^verbatim>\<open>wait_tasks\<close> entered
  (\<^verbatim>\<open>m_is_waiting\<close> true, phase 1 not finished) and a task submitted after that, the next
  step of the worker pops the task, with \<^verbatim>\<open>m_is_waiting\<close> still true and phase 1 still
  running.
\<close>

theorem waiting_worker_pops_counterexample:
  "run quiesce_schedule (system_init lowlatancy) = Some phase1_state
   \<and> m_is_waiting (branch phase1_state) \<and> waiter phase1_state = WtPhase1
   \<and> tq (branch phase1_state) = [Single 7]
   \<and> fire (Step 5) phase1_state = Some phase1_popped
   \<and> m_is_waiting (branch phase1_popped) \<and> waiter phase1_popped = WtPhase1
   \<and> tq (branch phase1_popped) = []
   \<and> threads phase1_popped 5 = Some \<lparr>pc = Executing, task = Single 7, spin_count = 0\<rparr>"
  using run_quiesce step_phase1 by (simp add: phase1_state_def phase1_popped_def)

lemma mission_step_pop:
  assumes "mission_step t l b = Some (sigs, l', b')"
  shows "(tq b' \<noteq> tq b) = (pc l = AtLoop \<and> decline b = 0 \<and> tq b \<noteq> [])"
    and "tq b' \<noteq> tq b \<Longrightarrow> tq b = task l' # tq b' \<and> pc l' = Executing"
  using assms
  by (cases "pc l";
      auto simp: mission_step_def report_resumed_def Let_def try_pop_def
           split: if_splits list.splits waitStrategy.splits)+

lemma parked_waits: "pc l = Parked \<Longrightarrow> m_is_waiting b \<Longrightarrow> mission_step t l b = None"
  by (simp add: mission_step_def)

lemma all_parked_no_step:
  assumes "m_is_waiting (branch s)" and "all_parked s"
  shows "fire (Step t) s = None"
proof (cases "threads s t")
  case None
  then show ?thesis by (simp add: fire_def)
next
  case (Some l)
  with assms(2) have "pc l = Parked \<or> pc l = Exited" by (auto simp: all_parked_def)
  hence "mission_step t l (branch s) = None"
    using assms(1) by (auto simp: mission_step_def)
  with Some show ?thesis by (simp add: fire_def)
qed

text \<open>
  C1, amended.  A step of a worker takes a task from the queue exactly when it is the
  test at the top of the loop, \<^verbatim>\<open>decline\<close> is 0 and the queue is not empty, whatever
  \<^verbatim>\<open>m_is_waiting\<close> is; it takes the head.  A worker parked in phase 1 cannot move while
  \<^verbatim>\<open>m_is_waiting\<close> is true; so while \<^verbatim>\<open>m_is_waiting\<close> is true and every worker is parked
  or has returned, no worker moves, and a task submitted then stays in the queue until
  the flag is cleared.
\<close>

theorem mission_pops_until_parked:
  "(mission_step t l b = Some (sigs, l', b') \<longrightarrow>
      (tq b' \<noteq> tq b) = (pc l = AtLoop \<and> decline b = 0 \<and> tq b \<noteq> [])
      \<and> (tq b' \<noteq> tq b \<longrightarrow> tq b = task l' # tq b' \<and> pc l' = Executing))
   \<and> (pc l = Parked \<and> m_is_waiting b \<longrightarrow> mission_step t l b = None)
   \<and> (m_is_waiting (branch s) \<and> all_parked s \<longrightarrow> fire (Step t) s = None)"
  using mission_step_pop [of t l b sigs l' b'] parked_waits [of l b t] all_parked_no_step [of s t]
  by blast

lemma run_parked: "run parked_schedule (system_init lowlatancy) = Some parked_state"
  by (simp add: parked_schedule_def parked_state_def sys_defs)

theorem mission_pops_until_parked_witness:
  "mission_step 5 \<lparr>pc = AtLoop, task = NoTask, spin_count = 0\<rparr> (branch phase1_state)
     = Some ([], \<lparr>pc = Executing, task = Single 7, spin_count = 0\<rparr>, branch phase1_popped)
   \<and> m_is_waiting (branch phase1_state)
   \<and> tq (branch phase1_popped) \<noteq> tq (branch phase1_state)
   \<and> run parked_schedule (system_init lowlatancy) = Some parked_state
   \<and> m_is_waiting (branch parked_state) \<and> all_parked parked_state
   \<and> tq (branch parked_state) = [Single 7]
   \<and> threads parked_state 5 = Some \<lparr>pc = Parked, task = NoTask, spin_count = 0\<rparr>
   \<and> mission_step 5 \<lparr>pc = Parked, task = NoTask, spin_count = 0\<rparr> (branch parked_state) = None
   \<and> fire (Step 5) parked_state = None"
proof -
  have k: "threads parked_state 5 = Some \<lparr>pc = Parked, task = NoTask, spin_count = 0\<rparr>"
    by (simp add: parked_state_def)
  have g: "mission_step 5 \<lparr>pc = Parked, task = NoTask, spin_count = 0\<rparr> (branch parked_state)
             = None"
    using mission_pops_until_parked
            [of 5 "\<lparr>pc = Parked, task = NoTask, spin_count = 0\<rparr>" "branch parked_state"]
    by (simp add: parked_state_def)
  have m: "mission_step 5 \<lparr>pc = AtLoop, task = NoTask, spin_count = 0\<rparr> (branch phase1_state)
     = Some ([], \<lparr>pc = Executing, task = Single 7, spin_count = 0\<rparr>, branch phase1_popped)"
    by (simp add: phase1_state_def phase1_popped_def mission_step_def try_pop_def)
  have c: "pc \<lparr>pc = AtLoop, task = NoTask, spin_count = 0\<rparr> = AtLoop
        \<and> decline (branch phase1_state) = 0 \<and> tq (branch phase1_state) \<noteq> []"
    by (simp add: phase1_state_def)
  have w: "m_is_waiting (branch phase1_state)" by (simp add: phase1_state_def)
  have p: "m_is_waiting (branch parked_state)" "tq (branch parked_state) = [Single 7]"
    by (simp_all add: parked_state_def)
  have a: "all_parked parked_state" by (simp add: all_parked_def parked_state_def)
  note t = mission_pops_until_parked [of 5 "\<lparr>pc = AtLoop, task = NoTask, spin_count = 0\<rparr>"
      "branch phase1_state" "[]" "\<lparr>pc = Executing, task = Single 7, spin_count = 0\<rparr>"
      "branch phase1_popped" parked_state]
  from t m c have q: "tq (branch phase1_popped) \<noteq> tq (branch phase1_state)" by blast
  from t p(1) a have f: "fire (Step 5) parked_state = None" by blast
  from m w q run_parked p a f k g show ?thesis by blast
qed

end
